theory Spec2Isabelle
  imports Main "HOL-Library.Word"
begin

section \<open>Python values and exceptions\<close>

text \<open>
  The service is one Python module, \<^verbatim>\<open>main.py\<close>. Strings are lists of characters; a
  character stands for a code point below 256. Exceptions are values: a function that
  can raise returns \<open>pyexn + 'a\<close>, with \<open>Inl\<close> the exception that leaves it.
\<close>

datatype pyexn =
    HTTPException nat string
  | RequestException string
  | KeyError string
  | ValueError string
  | TypeError string

text \<open>
  \<^verbatim>\<open>str(e)\<close>: the message of the exception; for a \<^verbatim>\<open>KeyError\<close> the \<^verbatim>\<open>repr\<close> of the
  key (the keys used here are plain identifiers, whose \<^verbatim>\<open>repr\<close> is the key in single
  quotes).
\<close>

fun str_exn :: "pyexn \<Rightarrow> string" where
  "str_exn (HTTPException st d) = d"
| "str_exn (RequestException m) = m"
| "str_exn (KeyError k) = [CHR 0x27] @ k @ [CHR 0x27]"
| "str_exn (ValueError m) = m"
| "str_exn (TypeError m) = m"

section \<open>The regular expressions of \<^verbatim>\<open>extract_douyin_id\<close>\<close>

text \<open>
  The three patterns use a literal character, an optional literal character
  (\<^verbatim>\<open>s?\<close>) and one capture group holding a greedy repetition of a character class
  (\<^verbatim>\<open>(\w+)\<close>, \<^verbatim>\<open>(\d+)\<close>). \<^verbatim>\<open>\w\<close> and \<^verbatim>\<open>\d\<close> are the classes of Python's
  \<^verbatim>\<open>re\<close> on \<^verbatim>\<open>str\<close> patterns, here on the code points below 256.
\<close>

datatype cclass = Word | Digit

datatype item = Chr char | Opt char | GroupPlus cclass

definition is_digit :: "char \<Rightarrow> bool" where
  "is_digit c = (let n = (of_char c :: nat) in 48 \<le> n \<and> n \<le> 57)"

definition is_word :: "char \<Rightarrow> bool" where
  "is_word c =
     (let n = (of_char c :: nat) in
        (48 \<le> n \<and> n \<le> 57) \<or> (65 \<le> n \<and> n \<le> 90) \<or> n = 95 \<or> (97 \<le> n \<and> n \<le> 122) \<or>
        n = 170 \<or> n = 178 \<or> n = 179 \<or> n = 181 \<or> n = 185 \<or> n = 186 \<or>
        (188 \<le> n \<and> n \<le> 190) \<or> (192 \<le> n \<and> n \<le> 214) \<or> (216 \<le> n \<and> n \<le> 246) \<or>
        (248 \<le> n \<and> n \<le> 255))"

fun in_class :: "cclass \<Rightarrow> char \<Rightarrow> bool" where
  "in_class Word c = is_word c"
| "in_class Digit c = is_digit c"

text \<open>The first alternative that succeeds, in the order tried.\<close>

fun first_some :: "('a \<Rightarrow> 'b option) \<Rightarrow> 'a list \<Rightarrow> 'b option" where
  "first_some f [] = None"
| "first_some f (n # ns) = (case f n of Some g \<Rightarrow> Some g | None \<Rightarrow> first_some f ns)"

text \<open>
  \<open>match_here p s cap\<close>: the backtracking matcher anchored at the start of \<open>s\<close>; the
  result is the text of group 1 (\<open>cap\<close> until the group is reached). An optional
  character is tried present before absent; a repetition is tried longest first.
\<close>

fun match_here :: "item list \<Rightarrow> string \<Rightarrow> string \<Rightarrow> string option" where
  "match_here [] s cap = Some cap"
| "match_here (Chr c # r) s cap =
     (case s of [] \<Rightarrow> None | x # xs \<Rightarrow> if x = c then match_here r xs cap else None)"
| "match_here (Opt c # r) s cap =
     (case (case s of [] \<Rightarrow> None | x # xs \<Rightarrow> if x = c then match_here r xs cap else None) of
        Some g \<Rightarrow> Some g
      | None \<Rightarrow> match_here r s cap)"
| "match_here (GroupPlus k # r) s cap =
     first_some (\<lambda>n. match_here r (drop n s) (take n s))
       (rev [1 ..< Suc (length (takeWhile (in_class k) s))])"

text \<open>
  \<^verbatim>\<open>re.search(pattern, url)\<close> followed by \<^verbatim>\<open>match.group(1)\<close>: the match at the
  leftmost start position that has one, every position up to the end of the string
  being tried.
\<close>

fun re_search :: "item list \<Rightarrow> string \<Rightarrow> string option" where
  "re_search p [] = match_here p [] []"
| "re_search p (c # cs) =
     (case match_here p (c # cs) [] of Some g \<Rightarrow> Some g | None \<Rightarrow> re_search p cs)"

definition lit :: "string \<Rightarrow> item list" where
  "lit s = map Chr s"

definition pattern1 :: "item list" where
  "pattern1 = lit ''http'' @ [Opt CHR ''s''] @ lit ''://v.douyin.com/'' @ [GroupPlus Word]"

definition pattern2 :: "item list" where
  "pattern2 = lit ''http'' @ [Opt CHR ''s''] @ lit ''://www.douyin.com/video/'' @ [GroupPlus Digit]"

definition pattern3 :: "item list" where
  "pattern3 = lit ''http'' @ [Opt CHR ''s''] @ lit ''://vm.tiktok.com/'' @ [GroupPlus Word]"

definition patterns :: "item list list" where
  "patterns = [pattern1, pattern2, pattern3]"

definition invalid_url_detail :: string where
  "invalid_url_detail =
     ''Invalid Douyin URL. Supported formats: '' @
     ''1. https://v.douyin.com/ABC123/ '' @
     ''2. https://www.douyin.com/video/1234567890123456789 '' @
     ''3. https://vm.tiktok.com/ABC123/''"

text \<open>The loop over the patterns: the first pattern that matches returns its group.\<close>

fun search_patterns :: "item list list \<Rightarrow> string \<Rightarrow> pyexn + string" where
  "search_patterns [] url = Inl (HTTPException 400 invalid_url_detail)"
| "search_patterns (p # ps) url =
     (case re_search p url of Some g \<Rightarrow> Inr g | None \<Rightarrow> search_patterns ps url)"

definition extract_douyin_id :: "string \<Rightarrow> pyexn + string" where
  "extract_douyin_id url = search_patterns patterns url"

section \<open>The three share-link shapes\<close>

text \<open>
  The shapes as the specification names them, stated on the string and without the
  matcher: a shape is the text that follows \<open>http://\<close> or \<open>https://\<close> and the class
  of the characters of the identifier. \<open>link_at sh pre tok url\<close>: after the prefix
  \<open>pre\<close>, \<open>url\<close> goes on with a link of shape \<open>sh\<close> whose identifier, taken as
  long as possible, is \<open>tok\<close>. \<open>first_link\<close> is the leftmost such link.
\<close>

type_synonym shape = "string \<times> cclass"

definition shapes :: "shape list" where
  "shapes = [(''v.douyin.com/'', Word), (''www.douyin.com/video/'', Digit), (''vm.tiktok.com/'', Word)]"

definition link_at :: "shape \<Rightarrow> string \<Rightarrow> string \<Rightarrow> string \<Rightarrow> bool" where
  "link_at sh pre tok url \<longleftrightarrow>
     (\<exists>scheme rest.
        (scheme = ''http'' \<or> scheme = ''https'') \<and>
        url = pre @ scheme @ ''://'' @ fst sh @ tok @ rest \<and>
        tok \<noteq> [] \<and> (\<forall>c \<in> set tok. in_class (snd sh) c) \<and>
        (case rest of [] \<Rightarrow> True | c # _ \<Rightarrow> \<not> in_class (snd sh) c))"

definition contains_link :: "shape \<Rightarrow> string \<Rightarrow> bool" where
  "contains_link sh url \<longleftrightarrow> (\<exists>pre tok. link_at sh pre tok url)"

definition first_link :: "shape \<Rightarrow> string \<Rightarrow> string \<Rightarrow> bool" where
  "first_link sh tok url \<longleftrightarrow>
     (\<exists>pre. link_at sh pre tok url \<and>
            (\<forall>pre' tok'. link_at sh pre' tok' url \<longrightarrow> length pre \<le> length pre'))"

text \<open>The pattern of a shape; the three patterns of the source are of this form.\<close>

definition shape_pattern :: "shape \<Rightarrow> item list" where
  "shape_pattern sh =
     lit ''http'' @ [Opt CHR ''s''] @ lit (''://'' @ fst sh) @ [GroupPlus (snd sh)]"

section \<open>Decoded JSON and the two dictionary operations used on it\<close>

text \<open>
  What \<^verbatim>\<open>response.json()\<close> returns: a Python value. A float is kept as its
  \<^verbatim>\<open>repr\<close>; a dict is an association list read with \<open>map_of\<close>.
\<close>

datatype json =
    JNull
  | JBool bool
  | JInt int
  | JFloat string
  | JStr string
  | JArr "json list"
  | JObj "(string \<times> json) list"

fun type_name :: "json \<Rightarrow> string" where
  "type_name JNull = ''NoneType''"
| "type_name (JBool b) = ''bool''"
| "type_name (JInt i) = ''int''"
| "type_name (JFloat f) = ''float''"
| "type_name (JStr s) = ''str''"
| "type_name (JArr xs) = ''list''"
| "type_name (JObj kvs) = ''dict''"

fun is_substring :: "string \<Rightarrow> string \<Rightarrow> bool" where
  "is_substring p [] = (p = [])"
| "is_substring p (c # cs) = (take (length p) (c # cs) = p \<or> is_substring p cs)"

text \<open>
  \<^verbatim>\<open>key in data\<close> for a \<^verbatim>\<open>str\<close> key: a key of a dict, an element of a list, a
  substring of a string; any other value is not a container and raises.
\<close>

fun py_contains :: "string \<Rightarrow> json \<Rightarrow> pyexn + bool" where
  "py_contains key (JObj kvs) = Inr (map_of kvs key \<noteq> None)"
| "py_contains key (JArr xs) = Inr (JStr key \<in> set xs)"
| "py_contains key (JStr s) = Inr (is_substring key s)"
| "py_contains key v =
     Inl (TypeError (''argument of type '' @ [CHR 0x27] @ type_name v @ [CHR 0x27] @
                     '' is not iterable''))"

text \<open>\<^verbatim>\<open>data[key]\<close> for a \<^verbatim>\<open>str\<close> key.\<close>

fun py_getitem :: "json \<Rightarrow> string \<Rightarrow> pyexn + json" where
  "py_getitem (JObj kvs) key =
     (case map_of kvs key of None \<Rightarrow> Inl (KeyError key) | Some v \<Rightarrow> Inr v)"
| "py_getitem (JArr xs) key =
     Inl (TypeError ''list indices must be integers or slices, not str'')"
| "py_getitem (JStr s) key =
     Inl (TypeError (''string indices must be integers, not '' @ [CHR 0x27] @ ''str'' @ [CHR 0x27]))"
| "py_getitem v key =
     Inl (TypeError ([CHR 0x27] @ type_name v @ [CHR 0x27] @ '' object is not subscriptable''))"

text \<open>Sequencing of statements that can raise.\<close>

fun and_then :: "pyexn + 'a \<Rightarrow> ('a \<Rightarrow> pyexn + 'b) \<Rightarrow> pyexn + 'b" where
  "and_then (Inl e) f = Inl e"
| "and_then (Inr x) f = f x"

section \<open>The network\<close>

text \<open>
  \<^verbatim>\<open>requests.get\<close> is the only way out of the process. A call is recorded as a
  \<open>request\<close>; what the outside answers is a parameter \<open>net\<close> of every function that
  calls out, and every such function returns the list of the calls it made.
  \<open>Raises m\<close> is a \<^verbatim>\<open>RequestException\<close> with message \<open>m\<close> raised by
  \<^verbatim>\<open>requests.get\<close> itself. In a response, \<open>status_error\<close> is the message of the
  \<^verbatim>\<open>HTTPError\<close> that \<^verbatim>\<open>raise_for_status\<close> raises for it, \<open>json_result\<close> what
  \<^verbatim>\<open>json()\<close> returns, or the message of the \<^verbatim>\<open>requests.exceptions.JSONDecodeError\<close>
  it raises (a \<^verbatim>\<open>RequestException\<close> as well as a \<^verbatim>\<open>ValueError\<close>, so that the first
  \<^verbatim>\<open>except\<close> clause takes it), \<open>content\<close> the body and \<open>reads\<close> the number of bytes
  that each successive read of the body finds available.
\<close>

record request =
  req_url :: json
  req_user_agent :: string
  req_timeout :: nat
  req_stream :: bool

record response =
  status_code :: nat
  status_error :: string
  json_result :: "string + json"
  content :: "8 word list"
  reads :: "nat list"

datatype reply = Raises string | Reply response

type_synonym net = "request \<Rightarrow> reply"

definition USER_AGENT :: string where
  "USER_AGENT =
     ''Mozilla/5.0 (Windows NT 10.0; Win64; x64) AppleWebKit/537.36 '' @
     ''(KHTML, like Gecko) Chrome/125.0.0.0 Safari/537.36''"

text \<open>\<^verbatim>\<open>raise_for_status\<close>: an \<^verbatim>\<open>HTTPError\<close>, which is a \<^verbatim>\<open>RequestException\<close>, for 4xx and 5xx.\<close>

definition raise_for_status :: "response \<Rightarrow> pyexn + unit" where
  "raise_for_status r =
     (if 400 \<le> status_code r \<and> status_code r < 600
      then Inl (RequestException (status_error r)) else Inr ())"

definition response_json :: "response \<Rightarrow> pyexn + json" where
  "response_json r = (case json_result r of Inl m \<Rightarrow> Inl (RequestException m) | Inr data \<Rightarrow> Inr data)"

definition requests_get :: "net \<Rightarrow> request \<Rightarrow> pyexn + response" where
  "requests_get nw rq = (case nw rq of Raises m \<Rightarrow> Inl (RequestException m) | Reply r \<Rightarrow> Inr r)"

section \<open>\<^verbatim>\<open>get_download_urls\<close>\<close>

definition api_url :: "string \<Rightarrow> string" where
  "api_url video_id = ''https://api.douyin.wtf/api?url=https://www.douyin.com/video/'' @ video_id"

definition api_request :: "string \<Rightarrow> request" where
  "api_request video_id =
     \<lparr>req_url = JStr (api_url video_id), req_user_agent = USER_AGENT,
      req_timeout = 15, req_stream = False\<rparr>"

text \<open>
  The test on the two top-level keys; \<^verbatim>\<open>or\<close> evaluates its second operand only when
  the first is false.
\<close>

definition check_structure :: "json \<Rightarrow> pyexn + unit" where
  "check_structure data =
     and_then (py_contains ''video_data'' data) (\<lambda>has_video.
       if \<not> has_video then Inl (ValueError ''Invalid API response structure'')
       else and_then (py_contains ''music_data'' data) (\<lambda>has_music.
         if \<not> has_music then Inl (ValueError ''Invalid API response structure'')
         else Inr ()))"

text \<open>The returned dict, its entries in the order of the dict display.\<close>

definition build_urls :: "json \<Rightarrow> pyexn + (string \<times> json) list" where
  "build_urls data =
     and_then (py_getitem data ''video_data'') (\<lambda>vd.
     and_then (py_getitem vd ''nwm_video_url'') (\<lambda>v.
     and_then (py_getitem data ''music_data'') (\<lambda>md.
     and_then (py_getitem md ''play_url'') (\<lambda>pu.
     and_then (py_getitem pu ''uri'') (\<lambda>a.
       Inr [(''video'', v), (''audio'', a)])))))"

text \<open>The body of the \<^verbatim>\<open>try\<close> statement.\<close>

definition resolve_try :: "net \<Rightarrow> string \<Rightarrow> pyexn + (string \<times> json) list" where
  "resolve_try nw video_id =
     and_then (requests_get nw (api_request video_id)) (\<lambda>r.
     and_then (raise_for_status r) (\<lambda>_.
     and_then (response_json r) (\<lambda>data.
     and_then (check_structure data) (\<lambda>_.
       build_urls data))))"

text \<open>The two \<^verbatim>\<open>except\<close> clauses; any other exception leaves the function as it is.\<close>

fun resolve_except :: "pyexn \<Rightarrow> pyexn" where
  "resolve_except (RequestException m) = HTTPException 502 (''API request failed: '' @ m)"
| "resolve_except (KeyError k) =
     HTTPException 502 (''API response error: '' @ str_exn (KeyError k))"
| "resolve_except (ValueError m) =
     HTTPException 502 (''API response error: '' @ str_exn (ValueError m))"
| "resolve_except e = e"

definition get_download_urls :: "net \<Rightarrow> string \<Rightarrow> request list \<times> (pyexn + (string \<times> json) list)" where
  "get_download_urls nw video_id =
     ([api_request video_id],
      case resolve_try nw video_id of Inl e \<Rightarrow> Inl (resolve_except e) | Inr urls \<Rightarrow> Inr urls)"

section \<open>The download endpoint\<close>

text \<open>
  \<^verbatim>\<open>iter_content(chunk_size)\<close> on a streamed response: each read takes what is
  available, at least one byte and at most \<open>chunk_size\<close>, until the body is exhausted;
  once \<open>reads\<close> is used up a read takes a full block.
\<close>

function iter_content :: "nat \<Rightarrow> nat list \<Rightarrow> 'a list \<Rightarrow> 'a list list" where
  "iter_content chunk_size avail body =
     (if body = [] then []
      else let k = max 1 (min chunk_size (case avail of [] \<Rightarrow> chunk_size | a # _ \<Rightarrow> a))
           in take k body # iter_content chunk_size (tl avail) (drop k body))"
  by pat_completeness auto
termination
  by (relation "measure (\<lambda>(n, avail, body). length body)") auto

record streaming_response =
  body_chunks :: "8 word list list"
  content_type :: string
  headers :: "(string \<times> string) list"

definition media_request :: "json \<Rightarrow> request" where
  "media_request media_url =
     \<lparr>req_url = media_url, req_user_agent = USER_AGENT, req_timeout = 30, req_stream = True\<rparr>"

definition invalid_media_type_detail :: string where
  "invalid_media_type_detail =
     ''Invalid media type. Choose '' @ [CHR 0x27] @ ''video'' @ [CHR 0x27] @ '' or '' @
     [CHR 0x27] @ ''audio'' @ [CHR 0x27]"

definition make_streaming_response :: "string \<Rightarrow> string \<Rightarrow> response \<Rightarrow> streaming_response" where
  "make_streaming_response media_type video_id r =
     \<lparr>body_chunks = iter_content (1024 * 1024) (reads r) (content r),
      content_type = (if media_type = ''video'' then ''video/mp4'' else ''audio/mpeg''),
      headers = [(''Content-Disposition'',
                  ''attachment; filename=douyin_'' @ media_type @ ''_'' @ video_id @
                  (if media_type = ''video'' then ''.mp4'' else ''.mp3''))]\<rparr>"

text \<open>The three \<^verbatim>\<open>except\<close> clauses of the handler, in their order.\<close>

fun download_except :: "pyexn \<Rightarrow> pyexn" where
  "download_except (HTTPException st d) = HTTPException st d"
| "download_except (RequestException m) = HTTPException 504 (''Download failed: '' @ m)"
| "download_except e = HTTPException 500 (''Unexpected error: '' @ str_exn e)"

text \<open>
  The part of the \<^verbatim>\<open>try\<close> body after the URLs are resolved: the choice of the URL and
  the fetch of the media.
\<close>

definition fetch_media ::
  "net \<Rightarrow> string \<Rightarrow> string \<Rightarrow> (string \<times> json) list \<Rightarrow> request list \<times> (pyexn + streaming_response)" where
  "fetch_media nw video_id media_type download_urls =
     (case map_of download_urls media_type of
        None \<Rightarrow> ([], Inl (HTTPException 400 invalid_media_type_detail))
      | Some media_url \<Rightarrow>
          ([media_request media_url],
           and_then (requests_get nw (media_request media_url)) (\<lambda>r.
           and_then (raise_for_status r) (\<lambda>_.
             Inr (make_streaming_response media_type video_id r)))))"

definition download_try ::
  "net \<Rightarrow> string \<Rightarrow> string \<Rightarrow> request list \<times> (pyexn + streaming_response)" where
  "download_try nw url media_type =
     (case extract_douyin_id url of
        Inl e \<Rightarrow> ([], Inl e)
      | Inr video_id \<Rightarrow>
          (case get_download_urls nw video_id of
             (calls, Inl e) \<Rightarrow> (calls, Inl e)
           | (calls, Inr download_urls) \<Rightarrow>
               (case fetch_media nw video_id media_type download_urls of
                  (calls', res) \<Rightarrow> (calls @ calls', res))))"

definition download_douyin ::
  "net \<Rightarrow> string \<Rightarrow> string \<Rightarrow> request list \<times> (pyexn + streaming_response)" where
  "download_douyin nw url media_type =
     (case download_try nw url media_type of
        (calls, Inl e) \<Rightarrow> (calls, Inl (download_except e))
      | (calls, Inr resp) \<Rightarrow> (calls, Inr resp))"

section \<open>Canned responses\<close>

text \<open>
  Concrete answers of the outside world, on which the statements below are evaluated:
  \<open>canned_net api media\<close> answers the streamed request (the media fetch) with
  \<open>media\<close> and the other one (the resolver call) with \<open>api\<close>.
\<close>

definition canned_json :: json where
  "canned_json =
     JObj [(''video_data'', JObj [(''nwm_video_url'', JStr ''https://media.example/v'')]),
           (''music_data'', JObj [(''play_url'', JObj [(''uri'', JStr ''https://media.example/a'')])])]"

definition canned_response :: "string + json \<Rightarrow> response" where
  "canned_response j =
     \<lparr>status_code = 200, status_error = [], json_result = j,
      content = [1, 2, 3, 4, 5], reads = [2]\<rparr>"

definition canned_net :: "reply \<Rightarrow> reply \<Rightarrow> net" where
  "canned_net api media rq = (if req_stream rq then media else api)"

definition healthy_net :: net where
  "healthy_net = canned_net (Reply (canned_response (Inr canned_json)))
                            (Reply (canned_response (Inl ''Expecting value'')))"

definition empty_url_json :: json where
  "empty_url_json =
     JObj [(''video_data'', JObj [(''nwm_video_url'', JStr '''')]),
           (''music_data'', JObj [(''play_url'', JObj [(''uri'', JStr '''')])])]"

definition no_uri_json :: json where
  "no_uri_json =
     JObj [(''video_data'', JObj [(''nwm_video_url'', JStr ''https://media.example/v'')]),
           (''music_data'', JObj [(''play_url'', JObj [])])]"



section \<open>Resolver answers with a missing key\<close>

text \<open>
  The answers in which a key is missing at the place where \<open>get_download_urls\<close> reads
  it: a top-level key; \<open>nwm_video_url\<close> in the object \<open>video_data\<close>; and, once the
  video URL has been read, \<open>play_url\<close> in the object \<open>music_data\<close> or \<open>uri\<close> in
  the object \<open>play_url\<close>.
\<close>

definition required_key_missing :: "(string \<times> json) list \<Rightarrow> bool" where
  "required_key_missing d \<longleftrightarrow>
     map_of d ''video_data'' = None \<or> map_of d ''music_data'' = None \<or>
     (case map_of d ''video_data'' of
        Some (JObj vd) \<Rightarrow>
          map_of vd ''nwm_video_url'' = None \<or>
          (case map_of d ''music_data'' of
             Some (JObj md) \<Rightarrow>
               (case map_of md ''play_url'' of
                  None \<Rightarrow> True
                | Some (JObj pu) \<Rightarrow> map_of pu ''uri'' = None
                | Some _ \<Rightarrow> False)
           | _ \<Rightarrow> False)
      | _ \<Rightarrow> False)"

declare iter_content.simps [simp del]

section \<open>Sequencing, dictionaries and the resolver: basic facts\<close>

lemma and_then_Inr_iff: "and_then m f = Inr y \<longleftrightarrow> (\<exists>x. m = Inr x \<and> f x = Inr y)"
  by (cases m) auto


lemma py_getitem_Inr_iff:
  "py_getitem x k = Inr v \<longleftrightarrow> (\<exists>kvs. x = JObj kvs \<and> map_of kvs k = Some v)"
  by (cases x) (auto split: option.splits)



lemma build_urls_Inr:
  "build_urls data = Inr urls \<longleftrightarrow>
     (\<exists>d vd v md pu a. data = JObj d \<and> map_of d ''video_data'' = Some (JObj vd) \<and>
        map_of vd ''nwm_video_url'' = Some v \<and> map_of d ''music_data'' = Some (JObj md) \<and>
        map_of md ''play_url'' = Some (JObj pu) \<and> map_of pu ''uri'' = Some a \<and>
        urls = [(''video'', v), (''audio'', a)])"
  unfolding build_urls_def and_then_Inr_iff py_getitem_Inr_iff by auto







lemma resolve_try_Inr:
  "resolve_try nw vid = Inr urls \<Longrightarrow>
     \<exists>r data. nw (api_request vid) = Reply r \<and> raise_for_status r = Inr () \<and>
       json_result r = Inr data \<and> build_urls data = Inr urls"
  unfolding resolve_try_def and_then_Inr_iff
  by (auto simp: requests_get_def response_json_def split: reply.splits sum.splits)


lemma get_download_urls_Inr:
  "snd (get_download_urls nw vid) = Inr urls \<Longrightarrow> resolve_try nw vid = Inr urls"
  by (auto simp: get_download_urls_def split: sum.splits)

lemma get_download_urls_calls: "fst (get_download_urls nw vid) = [api_request vid]"
  by (simp add: get_download_urls_def)

lemma download_douyin_resolved:
  assumes "extract_douyin_id url = Inr vid" and "snd (get_download_urls nw vid) = Inr urls"
  shows "download_douyin nw url mt =
           (case fetch_media nw vid mt urls of
              (calls, Inl e) \<Rightarrow> (api_request vid # calls, Inl (download_except e))
            | (calls, Inr resp) \<Rightarrow> (api_request vid # calls, Inr resp))"
  using assms
  by (cases "get_download_urls nw vid")
     (auto simp: download_douyin_def download_try_def get_download_urls_def split: prod.splits sum.splits)

lemma download_douyin_unresolved:
  assumes "extract_douyin_id url = Inr vid" and "snd (get_download_urls nw vid) = Inl e"
  shows "download_douyin nw url mt = ([api_request vid], Inl (download_except e))"
  using assms
  by (cases "get_download_urls nw vid")
     (auto simp: download_douyin_def download_try_def get_download_urls_def split: prod.splits sum.splits)

lemma download_douyin_no_id:
  assumes "extract_douyin_id url = Inl e"
  shows "download_douyin nw url mt = ([], Inl (download_except e))"
  using assms by (simp add: download_douyin_def download_try_def)

lemma download_douyin_success:
  assumes "download_douyin nw url mt = (calls, Inr resp)"
  shows "\<exists>vid urls mu r. extract_douyin_id url = Inr vid \<and>
           snd (get_download_urls nw vid) = Inr urls \<and> map_of urls mt = Some mu \<and>
           nw (media_request mu) = Reply r \<and> raise_for_status r = Inr () \<and>
           calls = [api_request vid, media_request mu] \<and>
           resp = make_streaming_response mt vid r"
proof (cases "extract_douyin_id url")
  case (Inl e)
  with assms show ?thesis by (simp add: download_douyin_no_id)
next
  case (Inr vid)
  show ?thesis
  proof (cases "snd (get_download_urls nw vid)")
    case (Inl e)
    with Inr assms show ?thesis by (simp add: download_douyin_unresolved)
  next
    case urls: (Inr urls)
    from assms show ?thesis
      unfolding download_douyin_resolved[OF Inr urls]
      by (auto simp: fetch_media_def and_then_Inr_iff requests_get_def Inr urls
               split: option.splits sum.splits reply.splits prod.splits)
  qed
qed

section \<open>Chunking\<close>



section \<open>Evaluations on the canned responses\<close>

lemma extract_sample1: "extract_douyin_id ''https://v.douyin.com/ABC123/'' = Inr ''ABC123''"
  by (simp add: extract_douyin_id_def patterns_def pattern1_def lit_def is_word_def)

lemma extract_sample3: "extract_douyin_id ''https://vm.tiktok.com/ABC123/'' = Inr ''ABC123''"
  by (simp add: extract_douyin_id_def patterns_def pattern1_def pattern2_def pattern3_def lit_def is_word_def)

lemma healthy_resolves:
  "snd (get_download_urls healthy_net vid) =
     Inr [(''video'', JStr ''https://media.example/v''), (''audio'', JStr ''https://media.example/a'')]"
  by (simp add: get_download_urls_def resolve_try_def healthy_net_def canned_net_def api_request_def
      requests_get_def raise_for_status_def canned_response_def response_json_def canned_json_def
      check_structure_def build_urls_def)

lemma check_structure_obj:
  "check_structure (JObj d) =
     (if map_of d ''video_data'' = None \<or> map_of d ''music_data'' = None
      then Inl (ValueError ''Invalid API response structure'') else Inr ())"
  by (simp add: check_structure_def)

lemma resolve_try_obj:
  assumes "nw (api_request vid) = Reply r"
    and "\<not> (400 \<le> status_code r \<and> status_code r < 600)"
    and "json_result r = Inr (JObj d)"
  shows "resolve_try nw vid = and_then (check_structure (JObj d)) (\<lambda>_. build_urls (JObj d))"
  using assms by (auto simp: resolve_try_def requests_get_def raise_for_status_def response_json_def)

lemma build_urls_missing:
  assumes "map_of d ''video_data'' \<noteq> None" "map_of d ''music_data'' \<noteq> None"
    and "required_key_missing d"
  shows "\<exists>k. build_urls (JObj d) = Inl (KeyError k)"
proof -
  from assms(1) obtain x where x: "map_of d ''video_data'' = Some x" by auto
  from assms(2) obtain y where y: "map_of d ''music_data'' = Some y" by auto
  from assms(3) x y obtain vd where vd: "x = JObj vd"
    by (cases x) (simp_all add: required_key_missing_def)
  show ?thesis
  proof (cases "map_of vd ''nwm_video_url''")
    case None
    with x vd show ?thesis by (simp add: build_urls_def)
  next
    case (Some v)
    with assms(3) x y vd obtain md where md: "y = JObj md"
      by (cases y) (simp_all add: required_key_missing_def)
    show ?thesis
    proof (cases "map_of md ''play_url''")
      case None
      with x y vd md Some show ?thesis by (simp add: build_urls_def)
    next
      case pu: (Some z)
      with assms(3) x y vd md Some obtain pu' where z: "z = JObj pu'"
        by (cases z) (simp_all add: required_key_missing_def)
      with assms(3) x y vd md Some pu have "map_of pu' ''uri'' = None"
        by (simp add: required_key_missing_def)
      with x y vd md Some pu z show ?thesis by (simp add: build_urls_def)
    qed
  qed
qed





lemma healthy_download:
  "download_douyin healthy_net ''https://v.douyin.com/ABC123/'' ''video'' =
     ([api_request ''ABC123'', media_request (JStr ''https://media.example/v'')],
      Inr \<lparr>body_chunks = [[1, 2], [3, 4, 5]], content_type = ''video/mp4'',
           headers = [(''Content-Disposition'', ''attachment; filename=douyin_video_ABC123.mp4'')]\<rparr>)"
proof -
  have "iter_content (1024 * 1024) [2] [1, 2, 3, 4, 5 :: 8 word] = [[1, 2], [3, 4, 5]]"
    by (simp add: iter_content.simps)
  then have "fetch_media healthy_net ''ABC123'' ''video''
          [(''video'', JStr ''https://media.example/v''), (''audio'', JStr ''https://media.example/a'')] =
        ([media_request (JStr ''https://media.example/v'')],
         Inr \<lparr>body_chunks = [[1, 2], [3, 4, 5]], content_type = ''video/mp4'',
              headers = [(''Content-Disposition'', ''attachment; filename=douyin_video_ABC123.mp4'')]\<rparr>)"
    by (simp add: fetch_media_def healthy_net_def canned_net_def media_request_def requests_get_def
        raise_for_status_def canned_response_def make_streaming_response_def)
  then show ?thesis
    by (simp add: download_douyin_resolved[OF extract_sample1 healthy_resolves])
qed

section \<open>The matcher on the three patterns\<close>

lemma patterns_shapes: "patterns = map shape_pattern shapes"
  by (simp add: patterns_def shapes_def shape_pattern_def pattern1_def pattern2_def pattern3_def lit_def)

lemma match_lit:
  "match_here (lit l @ r) s cap =
     (if take (length l) s = l then match_here r (drop (length l) s) cap else None)"
proof (induction l arbitrary: s)
  case Nil
  then show ?case by (simp add: lit_def)
next
  case (Cons c l)
  then show ?case by (cases s) (auto simp: lit_def)
qed

lemma first_some_longest:
  assumes "f (Suc m) = Some g"
  shows "first_some f (rev [1 ..< Suc (Suc m)]) = Some g"
  using assms by simp

lemma match_group_last:
  "match_here [GroupPlus k] s cap =
     (if takeWhile (in_class k) s = [] then None else Some (takeWhile (in_class k) s))"
proof (cases "length (takeWhile (in_class k) s)")
  case 0
  then show ?thesis by simp
next
  case (Suc m)
  have "take (Suc m) s = takeWhile (in_class k) s"
    using Suc takeWhile_eq_take[of "in_class k" s] by simp
  then have "first_some (\<lambda>n. match_here [] (drop n s) (take n s)) (rev [1 ..< Suc (Suc m)]) =
          Some (takeWhile (in_class k) s)"
    by (intro first_some_longest) simp
  with Suc show ?thesis by auto
qed

lemma takeWhile_eq_iff:
  "takeWhile P v = tok \<longleftrightarrow>
     (\<exists>rest. v = tok @ rest \<and> (\<forall>c \<in> set tok. P c) \<and> (case rest of [] \<Rightarrow> True | c # _ \<Rightarrow> \<not> P c))"
proof
  assume t: "takeWhile P v = tok"
  have "v = tok @ dropWhile P v" using t by (metis takeWhile_dropWhile_id)
  moreover have "\<forall>c \<in> set tok. P c" using t by (auto dest: set_takeWhileD)
  moreover have "case dropWhile P v of [] \<Rightarrow> True | c # _ \<Rightarrow> \<not> P c"
  proof (cases "dropWhile P v")
    case Nil
    show ?thesis unfolding Nil by simp
  next
    case (Cons a l)
    then have "\<not> P a" using hd_dropWhile[of P v] by simp
    with Cons show ?thesis by simp
  qed
  ultimately show "\<exists>rest. v = tok @ rest \<and> (\<forall>c \<in> set tok. P c) \<and> (case rest of [] \<Rightarrow> True | c # _ \<Rightarrow> \<not> P c)"
    by blast
next
  assume "\<exists>rest. v = tok @ rest \<and> (\<forall>c \<in> set tok. P c) \<and> (case rest of [] \<Rightarrow> True | c # _ \<Rightarrow> \<not> P c)"
  then obtain rest where v: "v = tok @ rest" and tok: "\<forall>c \<in> set tok. P c"
    and rest: "case rest of [] \<Rightarrow> True | c # _ \<Rightarrow> \<not> P c" by blast
  from rest have "takeWhile P rest = []" by (cases rest) auto
  with v tok show "takeWhile P v = tok" by (simp add: takeWhile_append2)
qed

lemma match_host_group:
  "match_here (lit l @ [GroupPlus k]) u cap = Some tok \<longleftrightarrow>
     (\<exists>v. u = l @ v \<and> takeWhile (in_class k) v = tok \<and> tok \<noteq> [])"
proof -
  have "take (length l) u = l \<longleftrightarrow> (\<exists>v. u = l @ v)"
    by (metis append_eq_conv_conj append_take_drop_id)
  then show ?thesis
    by (auto simp: match_lit match_group_last simp del: match_here.simps)
qed

lemma match_shape_pattern:
  "match_here (shape_pattern sh) s [] = Some tok \<longleftrightarrow>
     (\<exists>scheme v. (scheme = ''http'' \<or> scheme = ''https'') \<and> s = scheme @ ''://'' @ fst sh @ v \<and>
        takeWhile (in_class (snd sh)) v = tok \<and> tok \<noteq> [])"
  (is "?L \<longleftrightarrow> ?R")
proof -
  let ?tail = "lit (''://'' @ fst sh) @ [GroupPlus (snd sh)]"
  have pat: "shape_pattern sh = lit ''http'' @ (Opt CHR ''s'' # ?tail)"
    by (simp add: shape_pattern_def)
  have R0: "match_here ?tail u [] = Some g \<longleftrightarrow>
        (\<exists>v. u = ''://'' @ fst sh @ v \<and> takeWhile (in_class (snd sh)) v = g \<and> g \<noteq> [])" for u g
    using match_host_group[of "''://'' @ fst sh" "snd sh" u "[]" g] by simp
  have R0s: "match_here ?tail (CHR ''s'' # xs) [] = None" for xs
  proof (cases "match_here ?tail (CHR ''s'' # xs) []")
    case (Some g)
    then show ?thesis unfolding R0 by simp
  qed simp
  have opt: "match_here (Opt CHR ''s'' # ?tail) t [] = Some tok \<longleftrightarrow>
        (\<exists>xs. t = CHR ''s'' # xs \<and> match_here ?tail xs [] = Some tok) \<or> match_here ?tail t [] = Some tok" for t
  proof (cases t)
    case Nil
    then show ?thesis by simp
  next
    case (Cons x xs)
    show ?thesis
    proof (cases "x = CHR ''s''")
      case True
      with Cons R0s[of xs] show ?thesis by (auto split: option.splits)
    next
      case False
      with Cons show ?thesis by simp
    qed
  qed
  have "?L \<longleftrightarrow> take (length ''http'') s = ''http'' \<and>
          match_here (Opt CHR ''s'' # ?tail) (drop (length ''http'') s) [] = Some tok"
    by (simp add: pat match_lit del: match_here.simps)
  also have "\<dots> \<longleftrightarrow> (\<exists>t. s = ''http'' @ t \<and> match_here (Opt CHR ''s'' # ?tail) t [] = Some tok)"
    by (metis append_eq_conv_conj)
  also have "\<dots> \<longleftrightarrow> ?R"
    unfolding opt R0 by auto
  finally show ?thesis .
qed

lemma re_search_None_iff:
  "re_search p s = None \<longleftrightarrow> (\<forall>pre suf. s = pre @ suf \<longrightarrow> match_here p suf [] = None)"
proof (induction s)
  case Nil
  then show ?case by simp
next
  case (Cons c cs)
  have "(\<forall>pre suf. c # cs = pre @ suf \<longrightarrow> match_here p suf [] = None) \<longleftrightarrow>
        match_here p (c # cs) [] = None \<and> (\<forall>pre suf. cs = pre @ suf \<longrightarrow> match_here p suf [] = None)"
    by (auto simp: Cons_eq_append_conv)
  with Cons show ?case by (simp split: option.splits)
qed

lemma re_search_Some_iff:
  "re_search p s = Some tok \<longleftrightarrow>
     (\<exists>pre suf. s = pre @ suf \<and> match_here p suf [] = Some tok \<and>
        (\<forall>pre' suf'. s = pre' @ suf' \<and> length pre' < length pre \<longrightarrow> match_here p suf' [] = None))"
proof (induction s)
  case Nil
  then show ?case by auto
next
  case (Cons c cs)
  show ?case
  proof (cases "match_here p (c # cs) []")
    case (Some g)
    have "(\<exists>pre suf. c # cs = pre @ suf \<and> match_here p suf [] = Some tok \<and>
        (\<forall>pre' suf'. c # cs = pre' @ suf' \<and> length pre' < length pre \<longrightarrow> match_here p suf' [] = None))
        \<longleftrightarrow> g = tok"
    proof
      assume "\<exists>pre suf. c # cs = pre @ suf \<and> match_here p suf [] = Some tok \<and>
        (\<forall>pre' suf'. c # cs = pre' @ suf' \<and> length pre' < length pre \<longrightarrow> match_here p suf' [] = None)"
      then obtain pre suf where ps: "c # cs = pre @ suf" "match_here p suf [] = Some tok"
        and least: "\<forall>pre' suf'. c # cs = pre' @ suf' \<and> length pre' < length pre \<longrightarrow> match_here p suf' [] = None"
        by blast
      have "pre = []"
      proof (rule ccontr)
        assume "pre \<noteq> []"
        then have "c # cs = [] @ (c # cs) \<and> length ([]::string) < length pre" by simp
        with least have "match_here p (c # cs) [] = None" by blast
        with Some show False by simp
      qed
      with ps Some show "g = tok" by simp
    next
      assume "g = tok"
      with Some have "c # cs = [] @ (c # cs) \<and> match_here p (c # cs) [] = Some tok \<and>
        (\<forall>pre' suf'. c # cs = pre' @ suf' \<and> length pre' < length ([]::string) \<longrightarrow> match_here p suf' [] = None)"
        by simp
      then show "\<exists>pre suf. c # cs = pre @ suf \<and> match_here p suf [] = Some tok \<and>
        (\<forall>pre' suf'. c # cs = pre' @ suf' \<and> length pre' < length pre \<longrightarrow> match_here p suf' [] = None)"
        by blast
    qed
    with Some show ?thesis by simp
  next
    case None
    have "(\<exists>pre suf. c # cs = pre @ suf \<and> match_here p suf [] = Some tok \<and>
        (\<forall>pre' suf'. c # cs = pre' @ suf' \<and> length pre' < length pre \<longrightarrow> match_here p suf' [] = None))
        \<longleftrightarrow>
        (\<exists>pre suf. cs = pre @ suf \<and> match_here p suf [] = Some tok \<and>
        (\<forall>pre' suf'. cs = pre' @ suf' \<and> length pre' < length pre \<longrightarrow> match_here p suf' [] = None))"
      (is "?A \<longleftrightarrow> ?B")
    proof
      assume ?A
      then obtain pre suf where ps: "c # cs = pre @ suf" "match_here p suf [] = Some tok"
        and least: "\<forall>pre' suf'. c # cs = pre' @ suf' \<and> length pre' < length pre \<longrightarrow> match_here p suf' [] = None"
        by blast
      from ps None obtain pre0 where pre0: "pre = c # pre0" "cs = pre0 @ suf"
        by (cases pre) auto
      have "match_here p suf' [] = None" if "cs = pre' @ suf'" "length pre' < length pre0" for pre' suf'
      proof -
        from that pre0 have "c # cs = (c # pre') @ suf' \<and> length (c # pre') < length pre" by simp
        with least show ?thesis by blast
      qed
      with pre0 ps show ?B by blast
    next
      assume ?B
      then obtain pre suf where ps: "cs = pre @ suf" "match_here p suf [] = Some tok"
        and least: "\<forall>pre' suf'. cs = pre' @ suf' \<and> length pre' < length pre \<longrightarrow> match_here p suf' [] = None"
        by blast
      have "match_here p suf' [] = None" if "c # cs = pre' @ suf'" "length pre' < length (c # pre)" for pre' suf'
      proof (cases pre')
        case Nil
        with that None show ?thesis by simp
      next
        case (Cons x pre'')
        with that have "cs = pre'' @ suf' \<and> length pre'' < length pre" by simp
        with least show ?thesis by blast
      qed
      moreover from ps have "c # cs = (c # pre) @ suf" by simp
      ultimately show ?A using ps(2) by blast
    qed
    with None Cons show ?thesis by simp
  qed
qed

lemma link_at_shift:
  "link_at sh pre tok url \<longleftrightarrow> (\<exists>suf. url = pre @ suf \<and> link_at sh [] tok suf)"
  by (auto simp: link_at_def)

lemma link_at_match:
  "link_at sh [] tok s \<longleftrightarrow> match_here (shape_pattern sh) s [] = Some tok"
  unfolding match_shape_pattern link_at_def takeWhile_eq_iff by auto

lemma link_at_iff_match:
  "link_at sh pre tok url \<longleftrightarrow>
     (\<exists>suf. url = pre @ suf \<and> match_here (shape_pattern sh) suf [] = Some tok)"
  unfolding link_at_shift[of sh pre] link_at_match ..

lemma contains_link_iff: "contains_link sh url \<longleftrightarrow> re_search (shape_pattern sh) url \<noteq> None"
proof -
  have "re_search (shape_pattern sh) url \<noteq> None \<longleftrightarrow>
        (\<exists>pre suf tok. url = pre @ suf \<and> match_here (shape_pattern sh) suf [] = Some tok)"
    unfolding re_search_None_iff by auto
  then show ?thesis
    unfolding contains_link_def link_at_iff_match by blast
qed

lemma first_link_iff: "first_link sh tok url \<longleftrightarrow> re_search (shape_pattern sh) url = Some tok"
proof
  assume "first_link sh tok url"
  then obtain pre where l: "link_at sh pre tok url"
    and least: "\<forall>pre' tok'. link_at sh pre' tok' url \<longrightarrow> length pre \<le> length pre'"
    unfolding first_link_def by blast
  from l obtain suf where s: "url = pre @ suf" "match_here (shape_pattern sh) suf [] = Some tok"
    unfolding link_at_iff_match by blast
  have "match_here (shape_pattern sh) suf' [] = None" if "url = pre' @ suf'" "length pre' < length pre"
    for pre' suf'
  proof (cases "match_here (shape_pattern sh) suf' []")
    case (Some g)
    with that(1) have "link_at sh pre' g url" unfolding link_at_iff_match by blast
    with least that(2) show ?thesis by fastforce
  qed simp
  with s show "re_search (shape_pattern sh) url = Some tok"
    unfolding re_search_Some_iff by blast
next
  assume "re_search (shape_pattern sh) url = Some tok"
  then obtain pre suf where s: "url = pre @ suf" "match_here (shape_pattern sh) suf [] = Some tok"
    and least: "\<forall>pre' suf'. url = pre' @ suf' \<and> length pre' < length pre \<longrightarrow>
                  match_here (shape_pattern sh) suf' [] = None"
    unfolding re_search_Some_iff by blast
  from s have "link_at sh pre tok url" unfolding link_at_iff_match by blast
  moreover have "length pre \<le> length pre'" if "link_at sh pre' tok' url" for pre' tok'
  proof (rule ccontr)
    assume "\<not> length pre \<le> length pre'"
    moreover from that obtain suf' where "url = pre' @ suf'"
      "match_here (shape_pattern sh) suf' [] = Some tok'"
      unfolding link_at_iff_match by blast
    ultimately show False using least by fastforce
  qed
  ultimately show "first_link sh tok url" unfolding first_link_def by blast
qed

lemma search_patterns_Inr_iff:
  "search_patterns ps url = Inr tok \<longleftrightarrow>
     (\<exists>k < length ps. re_search (ps ! k) url = Some tok \<and> (\<forall>j < k. re_search (ps ! j) url = None))"
proof (induction ps)
  case Nil
  then show ?case by simp
next
  case (Cons p ps)
  show ?case
  proof (cases "re_search p url")
    case None
    have "(\<exists>k < length (p # ps). re_search ((p # ps) ! k) url = Some tok \<and>
             (\<forall>j < k. re_search ((p # ps) ! j) url = None)) \<longleftrightarrow>
          (\<exists>k < length ps. re_search (ps ! k) url = Some tok \<and> (\<forall>j < k. re_search (ps ! j) url = None))"
      (is "?A \<longleftrightarrow> ?B")
    proof
      assume ?A
      then obtain k where k: "k < length (p # ps)" "re_search ((p # ps) ! k) url = Some tok"
        "\<forall>j < k. re_search ((p # ps) ! j) url = None" by blast
      with None obtain k' where k': "k = Suc k'" by (cases k) auto
      with k have "k' < length ps" "re_search (ps ! k') url = Some tok" by auto
      moreover have "\<forall>j < k'. re_search (ps ! j) url = None"
      proof (intro allI impI)
        fix j assume "j < k'"
        with k' k(3) have "re_search ((p # ps) ! Suc j) url = None" by blast
        then show "re_search (ps ! j) url = None" by simp
      qed
      ultimately show ?B by blast
    next
      assume ?B
      then obtain k where k: "k < length ps" "re_search (ps ! k) url = Some tok"
        "\<forall>j < k. re_search (ps ! j) url = None" by blast
      have "\<forall>j < Suc k. re_search ((p # ps) ! j) url = None"
      proof (intro allI impI)
        fix j assume "j < Suc k"
        with k(3) None show "re_search ((p # ps) ! j) url = None" by (cases j) auto
      qed
      with k(1,2) have "Suc k < length (p # ps) \<and> re_search ((p # ps) ! Suc k) url = Some tok \<and>
          (\<forall>j < Suc k. re_search ((p # ps) ! j) url = None)" by simp
      then show ?A by blast
    qed
    with None Cons show ?thesis by simp
  next
    case (Some g)
    have "(\<exists>k < length (p # ps). re_search ((p # ps) ! k) url = Some tok \<and>
             (\<forall>j < k. re_search ((p # ps) ! j) url = None)) \<longleftrightarrow> g = tok"
    proof
      assume "\<exists>k < length (p # ps). re_search ((p # ps) ! k) url = Some tok \<and>
             (\<forall>j < k. re_search ((p # ps) ! j) url = None)"
      then obtain k where k: "re_search ((p # ps) ! k) url = Some tok"
        "\<forall>j < k. re_search ((p # ps) ! j) url = None" by blast
      have "k = 0"
      proof (rule ccontr)
        assume "k \<noteq> 0"
        with k(2) have "re_search ((p # ps) ! 0) url = None" by blast
        with Some show False by simp
      qed
      with k Some show "g = tok" by simp
    next
      assume "g = tok"
      with Some have "0 < length (p # ps) \<and> re_search ((p # ps) ! 0) url = Some tok \<and>
             (\<forall>j < 0. re_search ((p # ps) ! j) url = None)" by simp
      then show "\<exists>k < length (p # ps). re_search ((p # ps) ! k) url = Some tok \<and>
             (\<forall>j < k. re_search ((p # ps) ! j) url = None)" by blast
    qed
    with Some show ?thesis by simp
  qed
qed

lemma search_patterns_Inl_iff:
  "search_patterns ps url = Inl e \<longleftrightarrow>
     e = HTTPException 400 invalid_url_detail \<and> (\<forall>k < length ps. re_search (ps ! k) url = None)"
proof (induction ps)
  case Nil
  then show ?case by auto
next
  case (Cons p ps)
  have "(\<forall>k < length (p # ps). re_search ((p # ps) ! k) url = None) \<longleftrightarrow>
        re_search p url = None \<and> (\<forall>k < length ps. re_search (ps ! k) url = None)"
    by (auto simp: less_Suc_eq_0_disj)
  with Cons show ?case by (auto split: option.splits)
qed

lemma length_shapes: "length shapes = 3" by (simp add: shapes_def)
lemma length_patterns: "length patterns = 3" by (simp add: patterns_def)

lemma pattern_nth: "k < length shapes \<Longrightarrow> patterns ! k = shape_pattern (shapes ! k)"
  by (simp add: patterns_shapes)

lemma first_matching_pattern:
  assumes "i < length patterns" and "re_search (patterns ! i) url \<noteq> None"
  shows "\<exists>k tok. k \<le> i \<and> re_search (patterns ! k) url = Some tok \<and>
           (\<forall>j < k. re_search (patterns ! j) url = None) \<and> extract_douyin_id url = Inr tok"
proof -
  define k where "k = (LEAST n. re_search (patterns ! n) url \<noteq> None)"
  have k: "re_search (patterns ! k) url \<noteq> None"
    unfolding k_def using assms(2) by (rule LeastI)
  have ki: "k \<le> i" unfolding k_def using assms(2) by (rule Least_le)
  have least: "re_search (patterns ! j) url = None" if "j < k" for j
    using that not_less_Least[of j "\<lambda>n. re_search (patterns ! n) url \<noteq> None"]
    unfolding k_def by blast
  from k obtain tok where tok: "re_search (patterns ! k) url = Some tok" by auto
  from ki assms(1) have "k < length patterns" by simp
  with tok least have "extract_douyin_id url = Inr tok"
    unfolding extract_douyin_id_def search_patterns_Inr_iff by blast
  with ki tok least show ?thesis by blast
qed

lemma match_extends:
  assumes "match_here (shape_pattern sh) s [] = Some tok"
  shows "\<exists>tok'. match_here (shape_pattern sh) (s @ post) [] = Some tok'"
proof -
  from assms obtain scheme v where
    s: "scheme = ''http'' \<or> scheme = ''https''" "s = scheme @ ''://'' @ fst sh @ v"
    and v: "takeWhile (in_class (snd sh)) v = tok" "tok \<noteq> []"
    unfolding match_shape_pattern by blast
  from v obtain c v' where "v = c # v'" "in_class (snd sh) c"
    by (cases v) (auto split: if_splits)
  then have "takeWhile (in_class (snd sh)) (v @ post) \<noteq> []" by simp
  moreover from s(2) have "s @ post = scheme @ ''://'' @ fst sh @ (v @ post)" by simp
  ultimately show ?thesis
    using s(1) unfolding match_shape_pattern by blast
qed

lemmas eval_patterns = patterns_def pattern1_def pattern2_def pattern3_def lit_def is_word_def is_digit_def

lemma shape_index: "k < length shapes \<Longrightarrow> k = 0 \<or> k = 1 \<or> k = 2"
  by (auto simp: length_shapes)

lemma search_sample1:
  "re_search (patterns ! 0) ''https://v.douyin.com/ABC123/'' = Some ''ABC123''"
  "re_search (patterns ! 1) ''https://v.douyin.com/ABC123/'' = None"
  "re_search (patterns ! 2) ''https://v.douyin.com/ABC123/'' = None"
  by (simp_all add: eval_patterns)

lemma search_sample2:
  "re_search (patterns ! 0) ''https://www.douyin.com/video/1234567890123456789'' = None"
  "re_search (patterns ! 1) ''https://www.douyin.com/video/1234567890123456789'' =
     Some ''1234567890123456789''"
  "re_search (patterns ! 2) ''https://www.douyin.com/video/1234567890123456789'' = None"
  by (simp_all add: eval_patterns)

lemma search_sample3:
  "re_search (patterns ! 0) ''https://vm.tiktok.com/ABC123/'' = None"
  "re_search (patterns ! 1) ''https://vm.tiktok.com/ABC123/'' = None"
  "re_search (patterns ! 2) ''https://vm.tiktok.com/ABC123/'' = Some ''ABC123''"
  by (simp_all add: eval_patterns)

lemma search_other:
  "re_search (patterns ! 0) ''https://example.com/video/1'' = None"
  "re_search (patterns ! 1) ''https://example.com/video/1'' = None"
  "re_search (patterns ! 2) ''https://example.com/video/1'' = None"
  by (simp_all add: eval_patterns)

lemma search_embedded:
  "re_search (patterns ! 0) (''Check this out: '' @ ''https://v.douyin.com/ABC123/'' @ '' #fun'') =
     Some ''ABC123''"
  by (simp add: eval_patterns)

lemma match_sample1:
  "match_here (patterns ! 0) ''https://v.douyin.com/ABC123/'' [] = Some ''ABC123''"
  by (simp add: eval_patterns)

lemma contains_link_nth:
  "k < length shapes \<Longrightarrow> contains_link (shapes ! k) url \<longleftrightarrow> re_search (patterns ! k) url \<noteq> None"
  by (simp add: contains_link_iff pattern_nth)

lemma shape_indices: "0 < length shapes" "1 < length shapes" "2 < length shapes"
  by (simp_all add: length_shapes)

section \<open>The resolver\<close>

text \<open>
  C3. When the resolver answers with a status that is no error and a JSON object that has
  an object \<open>video_data\<close> with the key \<open>nwm_video_url\<close> and an object
  \<open>music_data\<close> with an object \<open>play_url\<close> that has the key \<open>uri\<close>,
  \<open>get_download_urls\<close> returns the dict whose \<open>video\<close> entry is exactly the nested
  \<open>nwm_video_url\<close> value and whose \<open>audio\<close> entry is exactly the nested
  \<open>play_url.uri\<close> value.
\<close>

theorem resolve_returns_nested_urls:
  assumes "nw (api_request vid) = Reply r"
    and "\<not> (400 \<le> status_code r \<and> status_code r < 600)"
    and "json_result r = Inr (JObj d)"
    and "map_of d ''video_data'' = Some (JObj vd)"
    and "map_of vd ''nwm_video_url'' = Some v"
    and "map_of d ''music_data'' = Some (JObj md)"
    and "map_of md ''play_url'' = Some (JObj pu)"
    and "map_of pu ''uri'' = Some a"
  shows "snd (get_download_urls nw vid) = Inr [(''video'', v), (''audio'', a)]"
  using assms
  by (simp add: get_download_urls_def resolve_try_def requests_get_def raise_for_status_def
      response_json_def check_structure_def build_urls_def)

text \<open>C3 on the canned response: every hypothesis holds there.\<close>

theorem resolve_returns_nested_urls_witness:
  "snd (get_download_urls healthy_net ''ABC123'') =
     Inr [(''video'', JStr ''https://media.example/v''),
          (''audio'', JStr ''https://media.example/a'')]"
  using resolve_returns_nested_urls [of healthy_net "''ABC123''"
      "canned_response (Inr canned_json)"
      "[(''video_data'', JObj [(''nwm_video_url'', JStr ''https://media.example/v'')]),
        (''music_data'', JObj [(''play_url'', JObj [(''uri'', JStr ''https://media.example/a'')])])]"
      "[(''nwm_video_url'', JStr ''https://media.example/v'')]"
      "JStr ''https://media.example/v''"
      "[(''play_url'', JObj [(''uri'', JStr ''https://media.example/a'')])]"
      "[(''uri'', JStr ''https://media.example/a'')]"
      "JStr ''https://media.example/a''"]
  by (simp add: healthy_net_def canned_net_def api_request_def canned_response_def canned_json_def)

text \<open>
  C10. \<open>get_download_urls\<close> makes exactly one call, to the API URL that appends the
  identifier to the fixed prefix ending in \<open>https://www.douyin.com/video/\<close>. Whatever
  link the identifier was extracted from, that call is the first one of the download
  handler, so two links that yield the same identifier yield the same upstream request.
\<close>

theorem upstream_request_template:
  "fst (get_download_urls nw vid) = [api_request vid] \<and>
   req_url (api_request vid) =
     JStr (''https://api.douyin.wtf/api?url=https://www.douyin.com/video/'' @ vid) \<and>
   (extract_douyin_id url = Inr vid \<longrightarrow>
      (\<exists>rest. fst (download_douyin nw url mt) = api_request vid # rest)) \<and>
   (extract_douyin_id url = Inr vid \<and> extract_douyin_id url' = Inr vid \<longrightarrow>
      hd (fst (download_douyin nw url mt)) = hd (fst (download_douyin nw url' mt)))"
proof -
  have first: "\<exists>rest. fst (download_douyin nw u mt) = api_request vid # rest"
    if "extract_douyin_id u = Inr vid" for u
  proof (cases "snd (get_download_urls nw vid)")
    case (Inl e)
    with that show ?thesis by (simp add: download_douyin_unresolved)
  next
    case (Inr urls)
    with that show ?thesis
      by (simp add: download_douyin_resolved split: prod.splits sum.splits)
  qed
  have "hd (fst (download_douyin nw url mt)) = hd (fst (download_douyin nw url' mt))"
    if "extract_douyin_id url = Inr vid" "extract_douyin_id url' = Inr vid"
    using first[OF that(1)] first[OF that(2)] by auto
  with first show ?thesis
    by (simp add: get_download_urls_calls api_request_def api_url_def)
qed

text \<open>
  C10 on a \<open>vm.tiktok.com\<close> link and a \<open>v.douyin.com\<close> link with the same
  identifier.
\<close>

theorem upstream_request_template_witness:
  "extract_douyin_id ''https://vm.tiktok.com/ABC123/'' = Inr ''ABC123'' \<and>
   extract_douyin_id ''https://v.douyin.com/ABC123/'' = Inr ''ABC123'' \<and>
   req_url (api_request ''ABC123'') =
     JStr ''https://api.douyin.wtf/api?url=https://www.douyin.com/video/ABC123'' \<and>
   hd (fst (download_douyin healthy_net ''https://vm.tiktok.com/ABC123/'' ''video'')) =
     hd (fst (download_douyin healthy_net ''https://v.douyin.com/ABC123/'' ''video''))"
  using upstream_request_template [of healthy_net "''ABC123''" "''https://vm.tiktok.com/ABC123/''"
      "''video''" "''https://v.douyin.com/ABC123/''"]
  by (simp add: extract_sample1 extract_sample3)

text \<open>
  C2, as the code has it. When the resolver answers with a status that is no error and
  a JSON object in which a required key is missing at the place where it is read,
  \<open>get_download_urls\<close> fails with status 502 and a detail that starts with
  \<open>API response error: \<close>. Whenever it returns a dict, no key was missing and the dict
  has both entries: no partial result is returned. The values read are returned as they
  are.
\<close>

theorem missing_key_is_bad_gateway:
  assumes "nw (api_request vid) = Reply r"
    and "\<not> (400 \<le> status_code r \<and> status_code r < 600)"
    and "json_result r = Inr (JObj d)"
  shows "(required_key_missing d \<longrightarrow>
            (\<exists>m. snd (get_download_urls nw vid) =
                   Inl (HTTPException 502 (''API response error: '' @ m)))) \<and>
         (\<forall>urls. snd (get_download_urls nw vid) = Inr urls \<longrightarrow>
            \<not> required_key_missing d \<and> (\<exists>v a. urls = [(''video'', v), (''audio'', a)]))"
proof (intro conjI impI allI)
  assume miss: "required_key_missing d"
  show "\<exists>m. snd (get_download_urls nw vid) = Inl (HTTPException 502 (''API response error: '' @ m))"
  proof (cases "map_of d ''video_data'' = None \<or> map_of d ''music_data'' = None")
    case True
    then show ?thesis
      by (simp add: get_download_urls_def resolve_try_obj[of nw vid r d, OF assms] check_structure_obj)
  next
    case False
    with miss obtain k where "build_urls (JObj d) = Inl (KeyError k)"
      using build_urls_missing by blast
    with False show ?thesis
      by (simp add: get_download_urls_def resolve_try_obj[of nw vid r d, OF assms] check_structure_obj)
  qed
next
  fix urls
  assume ok: "snd (get_download_urls nw vid) = Inr urls"
  then have "resolve_try nw vid = Inr urls" by (rule get_download_urls_Inr)
  then have "build_urls (JObj d) = Inr urls"
    by (simp add: resolve_try_obj[of nw vid r d, OF assms] and_then_Inr_iff)
  then show "\<not> required_key_missing d"
    by (auto simp: build_urls_Inr required_key_missing_def)
  from \<open>build_urls (JObj d) = Inr urls\<close> show "\<exists>v a. urls = [(''video'', v), (''audio'', a)]"
    by (auto simp: build_urls_Inr)
qed

text \<open>
  C2 as stated fails: URL values that are empty strings are not rejected, they are
  returned.
\<close>

theorem empty_url_counterexample:
  "snd (get_download_urls
          (canned_net (Reply (canned_response (Inr empty_url_json))) (Raises ''unused''))
          ''ABC123'') =
     Inr [(''video'', JStr ''''), (''audio'', JStr '''')]"
  by (simp add: get_download_urls_def resolve_try_def canned_net_def api_request_def
      requests_get_def raise_for_status_def canned_response_def response_json_def empty_url_json_def
      check_structure_def build_urls_def)

text \<open>
  C2, as the code has it, on an answer whose \<open>play_url\<close> object has no \<open>uri\<close>, and
  on the complete canned answer.
\<close>

theorem missing_key_is_bad_gateway_witness:
  "required_key_missing
     [(''video_data'', JObj [(''nwm_video_url'', JStr ''https://media.example/v'')]),
      (''music_data'', JObj [(''play_url'', JObj [])])] \<and>
   snd (get_download_urls
          (canned_net (Reply (canned_response (Inr no_uri_json))) (Raises ''unused''))
          ''ABC123'') =
     Inl (HTTPException 502 (''API response error: '' @ [CHR 0x27] @ ''uri'' @ [CHR 0x27])) \<and>
   \<not> required_key_missing
     [(''video_data'', JObj [(''nwm_video_url'', JStr ''https://media.example/v'')]),
      (''music_data'', JObj [(''play_url'', JObj [(''uri'', JStr ''https://media.example/a'')])])] \<and>
   snd (get_download_urls healthy_net ''ABC123'') =
     Inr [(''video'', JStr ''https://media.example/v''), (''audio'', JStr ''https://media.example/a'')]"
  using missing_key_is_bad_gateway [of
      "canned_net (Reply (canned_response (Inr no_uri_json))) (Raises ''unused'')" "''ABC123''"
      "canned_response (Inr no_uri_json)"
      "[(''video_data'', JObj [(''nwm_video_url'', JStr ''https://media.example/v'')]),
        (''music_data'', JObj [(''play_url'', JObj [])])]"]
    missing_key_is_bad_gateway [of healthy_net "''ABC123''" "canned_response (Inr canned_json)"
      "[(''video_data'', JObj [(''nwm_video_url'', JStr ''https://media.example/v'')]),
        (''music_data'', JObj [(''play_url'', JObj [(''uri'', JStr ''https://media.example/a'')])])]"]
  by (simp add: get_download_urls_def resolve_try_def canned_net_def api_request_def healthy_net_def
      requests_get_def raise_for_status_def canned_response_def response_json_def no_uri_json_def
      canned_json_def check_structure_def build_urls_def required_key_missing_def)

section \<open>The download endpoint\<close>

text \<open>
  C1, as the code has it. The media type is looked up in the dict that the resolver
  call returned: for a link that yields an identifier and a resolver answer that yields
  the URLs, a media type other than \<open>video\<close> and \<open>audio\<close> fails with status 400 and
  the detail naming the two values, after exactly one call, the one to the resolver, and
  without any call to a media host.
\<close>

theorem invalid_media_type_after_resolution:
  assumes "extract_douyin_id url = Inr vid"
    and "snd (get_download_urls nw vid) = Inr urls"
    and "mt \<noteq> ''video''" and "mt \<noteq> ''audio''"
  shows "download_douyin nw url mt =
           ([api_request vid], Inl (HTTPException 400 invalid_media_type_detail))"
proof -
  from assms(2) obtain v a where "urls = [(''video'', v), (''audio'', a)]"
    using get_download_urls_Inr resolve_try_Inr build_urls_Inr by blast
  with assms(3,4) have "fetch_media nw vid mt urls = ([], Inl (HTTPException 400 invalid_media_type_detail))"
    by (simp add: fetch_media_def)
  then show ?thesis
    by (simp add: download_douyin_resolved[OF assms(1,2)])
qed

text \<open>
  C1 as stated fails: with the media type \<open>bogus\<close> the resolver is called before the
  request is rejected.
\<close>

theorem invalid_media_type_counterexample:
  "''bogus'' \<noteq> ''video'' \<and> ''bogus'' \<noteq> ''audio'' \<and>
   fst (download_douyin healthy_net ''https://v.douyin.com/ABC123/'' ''bogus'') =
     [api_request ''ABC123'']"
  by (simp add: download_douyin_resolved[OF extract_sample1 healthy_resolves] fetch_media_def)

text \<open>C1, as the code has it, on the canned response.\<close>

theorem invalid_media_type_after_resolution_witness:
  "download_douyin healthy_net ''https://v.douyin.com/ABC123/'' ''bogus'' =
     ([api_request ''ABC123''],
      Inl (HTTPException 400
             (''Invalid media type. Choose '' @ [CHR 0x27] @ ''video'' @ [CHR 0x27] @ '' or '' @
              [CHR 0x27] @ ''audio'' @ [CHR 0x27])))"
  using invalid_media_type_after_resolution[OF extract_sample1 healthy_resolves, of "''bogus''"]
  by (simp add: invalid_media_type_detail_def)




text \<open>
  C7, as the code has it. A successful download response has the content type
  \<open>video/mp4\<close> for the media type \<open>video\<close> and \<open>audio/mpeg\<close> for \<open>audio\<close> (no
  other media type succeeds), and its only header is \<open>Content-Disposition\<close> with the
  value \<open>attachment; filename=douyin_\<close> followed by the media type, an underscore, the
  identifier and \<open>.mp4\<close> for video or \<open>.mp3\<close> for audio.
\<close>

theorem download_response_headers:
  assumes "download_douyin nw url mt = (calls, Inr resp)"
  shows "\<exists>vid. extract_douyin_id url = Inr vid \<and> (mt = ''video'' \<or> mt = ''audio'') \<and>
           (mt = ''video'' \<longrightarrow>
              content_type resp = ''video/mp4'' \<and>
              headers resp = [(''Content-Disposition'',
                               ''attachment; filename=douyin_video_'' @ vid @ ''.mp4'')]) \<and>
           (mt = ''audio'' \<longrightarrow>
              content_type resp = ''audio/mpeg'' \<and>
              headers resp = [(''Content-Disposition'',
                               ''attachment; filename=douyin_audio_'' @ vid @ ''.mp3'')])"
proof -
  from download_douyin_success[OF assms] obtain vid urls mu r where
    vid: "extract_douyin_id url = Inr vid" and
    urls: "snd (get_download_urls nw vid) = Inr urls" and
    mu: "map_of urls mt = Some mu" and
    resp: "resp = make_streaming_response mt vid r"
    by blast
  from urls obtain v a where "urls = [(''video'', v), (''audio'', a)]"
    using get_download_urls_Inr resolve_try_Inr build_urls_Inr by blast
  with mu have mt: "mt = ''video'' \<or> mt = ''audio''"
    by (auto split: if_splits)
  have "content_type resp = ''video/mp4'' \<and>
        headers resp = [(''Content-Disposition'', ''attachment; filename=douyin_video_'' @ vid @ ''.mp4'')]"
    if "mt = ''video''"
    using that resp by (simp add: make_streaming_response_def)
  moreover have "content_type resp = ''audio/mpeg'' \<and>
        headers resp = [(''Content-Disposition'', ''attachment; filename=douyin_audio_'' @ vid @ ''.mp3'')]"
    if "mt = ''audio''"
    using that resp by (simp add: make_streaming_response_def)
  ultimately show ?thesis using vid mt by blast
qed

text \<open>
  C7 as stated fails: the file name begins with \<open>douyin_\<close>, it is not the media type
  and the identifier alone.
\<close>

theorem download_filename_counterexample:
  "snd (download_douyin healthy_net ''https://v.douyin.com/ABC123/'' ''video'') =
     Inr \<lparr>body_chunks = [[1, 2], [3, 4, 5]], content_type = ''video/mp4'',
          headers = [(''Content-Disposition'', ''attachment; filename=douyin_video_ABC123.mp4'')]\<rparr> \<and>
   ''attachment; filename=douyin_video_ABC123.mp4'' \<noteq> ''attachment; filename=video_ABC123.mp4''"
  by (simp add: healthy_download)

text \<open>C7, as the code has it, on the canned response.\<close>

theorem download_response_headers_witness:
  "\<exists>resp. snd (download_douyin healthy_net ''https://v.douyin.com/ABC123/'' ''video'') = Inr resp \<and>
      content_type resp = ''video/mp4'' \<and>
      headers resp = [(''Content-Disposition'', ''attachment; filename=douyin_video_ABC123.mp4'')]"
  using download_response_headers [OF healthy_download] by (simp add: healthy_download extract_sample1)




section \<open>The identifier extractor\<close>

text \<open>
  C4. When the input contains a link of one of the three shapes, \<open>extract_douyin_id\<close>
  returns an identifier: the one that \<^verbatim>\<open>re.search\<close> captures for the first pattern, in
  the order of the list, whose shape the input contains, and that is the identifier of
  the leftmost link of that shape in the input.
\<close>

theorem extract_returns_first_shape_token:
  assumes "\<exists>i < length shapes. contains_link (shapes ! i) url"
  shows "\<exists>k tok. k < length shapes \<and> contains_link (shapes ! k) url \<and>
           (\<forall>j < k. \<not> contains_link (shapes ! j) url) \<and>
           first_link (shapes ! k) tok url \<and>
           re_search (patterns ! k) url = Some tok \<and>
           extract_douyin_id url = Inr tok"
proof -
  from assms obtain i where i: "i < length shapes" "contains_link (shapes ! i) url" by blast
  then have "i < length patterns" "re_search (patterns ! i) url \<noteq> None"
    by (simp_all add: length_shapes length_patterns pattern_nth contains_link_iff)
  from first_matching_pattern[OF this] obtain k tok where
    k: "k \<le> i" "re_search (patterns ! k) url = Some tok"
      "\<forall>j < k. re_search (patterns ! j) url = None" "extract_douyin_id url = Inr tok"
    by blast
  from k(1) i(1) have kl: "k < length shapes" by simp
  with k(2) have "contains_link (shapes ! k) url" "first_link (shapes ! k) tok url"
    by (simp_all add: pattern_nth contains_link_iff first_link_iff)
  moreover have "\<forall>j < k. \<not> contains_link (shapes ! j) url"
  proof (intro allI impI)
    fix j assume "j < k"
    with k(3) kl show "\<not> contains_link (shapes ! j) url"
      by (simp add: pattern_nth contains_link_iff)
  qed
  ultimately show ?thesis using kl k(2,4) by blast
qed

text \<open>
  C4 on the three links that the error message gives as examples, one for each shape.
\<close>

theorem extract_returns_first_shape_token_witness:
  "(contains_link (shapes ! 0) ''https://v.douyin.com/ABC123/'' \<and>
    first_link (shapes ! 0) ''ABC123'' ''https://v.douyin.com/ABC123/'' \<and>
    extract_douyin_id ''https://v.douyin.com/ABC123/'' = Inr ''ABC123'') \<and>
   (contains_link (shapes ! 1) ''https://www.douyin.com/video/1234567890123456789'' \<and>
    first_link (shapes ! 1) ''1234567890123456789''
      ''https://www.douyin.com/video/1234567890123456789'' \<and>
    extract_douyin_id ''https://www.douyin.com/video/1234567890123456789'' =
      Inr ''1234567890123456789'') \<and>
   (contains_link (shapes ! 2) ''https://vm.tiktok.com/ABC123/'' \<and>
    first_link (shapes ! 2) ''ABC123'' ''https://vm.tiktok.com/ABC123/'' \<and>
    extract_douyin_id ''https://vm.tiktok.com/ABC123/'' = Inr ''ABC123'')"
proof (intro conjI)
  let ?u = "''https://v.douyin.com/ABC123/''"
  have c: "contains_link (shapes ! 0) ?u"
    by (simp only: contains_link_nth[OF shape_indices(1)] search_sample1(1) option.simps simp_thms)
  with shape_indices(1) have "\<exists>i < length shapes. contains_link (shapes ! i) ?u"
    by blast
  from extract_returns_first_shape_token[OF this] obtain k tok where
    k: "k < length shapes" "first_link (shapes ! k) tok ?u"
      "re_search (patterns ! k) ?u = Some tok" "extract_douyin_id ?u = Inr tok"
    by blast
  from shape_index[OF k(1)] have kt: "k = 0 \<and> tok = ''ABC123''"
  proof (elim disjE)
    assume "k = 0"
    with k(3) show ?thesis by (simp only: search_sample1(1) option.inject simp_thms)
  next
    assume "k = 1"
    with k(3) show ?thesis by (simp only: search_sample1(2) option.simps)
  next
    assume "k = 2"
    with k(3) show ?thesis by (simp only: search_sample1(3) option.simps)
  qed
  show "contains_link (shapes ! 0) ?u" by (rule c)
  from k(2) kt show "first_link (shapes ! 0) ''ABC123'' ?u" by (simp only:)
  from k(4) kt show "extract_douyin_id ?u = Inr ''ABC123''" by (simp only:)
next
  let ?u = "''https://www.douyin.com/video/1234567890123456789''"
  have c: "contains_link (shapes ! 1) ?u"
    by (simp only: contains_link_nth[OF shape_indices(2)] search_sample2(2) option.simps simp_thms)
  with shape_indices(2) have "\<exists>i < length shapes. contains_link (shapes ! i) ?u"
    by blast
  from extract_returns_first_shape_token[OF this] obtain k tok where
    k: "k < length shapes" "first_link (shapes ! k) tok ?u"
      "re_search (patterns ! k) ?u = Some tok" "extract_douyin_id ?u = Inr tok"
    by blast
  from shape_index[OF k(1)] have kt: "k = 1 \<and> tok = ''1234567890123456789''"
  proof (elim disjE)
    assume "k = 0"
    with k(3) show ?thesis by (simp only: search_sample2(1) option.simps)
  next
    assume "k = 1"
    with k(3) show ?thesis by (simp only: search_sample2(2) option.inject simp_thms)
  next
    assume "k = 2"
    with k(3) show ?thesis by (simp only: search_sample2(3) option.simps)
  qed
  show "contains_link (shapes ! 1) ?u" by (rule c)
  from k(2) kt show "first_link (shapes ! 1) ''1234567890123456789'' ?u" by (simp only:)
  from k(4) kt show "extract_douyin_id ?u = Inr ''1234567890123456789''" by (simp only:)
next
  let ?u = "''https://vm.tiktok.com/ABC123/''"
  have c: "contains_link (shapes ! 2) ?u"
    by (simp only: contains_link_nth[OF shape_indices(3)] search_sample3(3) option.simps simp_thms)
  with shape_indices(3) have "\<exists>i < length shapes. contains_link (shapes ! i) ?u"
    by blast
  from extract_returns_first_shape_token[OF this] obtain k tok where
    k: "k < length shapes" "first_link (shapes ! k) tok ?u"
      "re_search (patterns ! k) ?u = Some tok" "extract_douyin_id ?u = Inr tok"
    by blast
  from shape_index[OF k(1)] have kt: "k = 2 \<and> tok = ''ABC123''"
  proof (elim disjE)
    assume "k = 0"
    with k(3) show ?thesis by (simp only: search_sample3(1) option.simps)
  next
    assume "k = 1"
    with k(3) show ?thesis by (simp only: search_sample3(2) option.simps)
  next
    assume "k = 2"
    with k(3) show ?thesis by (simp only: search_sample3(3) option.inject simp_thms)
  qed
  show "contains_link (shapes ! 2) ?u" by (rule c)
  from k(2) kt show "first_link (shapes ! 2) ''ABC123'' ?u" by (simp only:)
  from k(4) kt show "extract_douyin_id ?u = Inr ''ABC123''" by (simp only:)
qed

text \<open>
  C5. When the input contains no link of any of the three shapes, \<open>extract_douyin_id\<close>
  fails with status 400 and returns no identifier; the detail of the error contains an
  example of each of the three supported shapes.
\<close>

theorem no_shape_is_invalid_input:
  assumes "\<forall>i < length shapes. \<not> contains_link (shapes ! i) url"
  shows "extract_douyin_id url = Inl (HTTPException 400 invalid_url_detail) \<and>
         (\<forall>tok. extract_douyin_id url \<noteq> Inr tok) \<and>
         is_substring ''https://v.douyin.com/ABC123/'' invalid_url_detail \<and>
         is_substring ''https://www.douyin.com/video/1234567890123456789'' invalid_url_detail \<and>
         is_substring ''https://vm.tiktok.com/ABC123/'' invalid_url_detail"
proof -
  have "\<forall>k < length patterns. re_search (patterns ! k) url = None"
    using assms by (simp add: length_shapes length_patterns pattern_nth contains_link_iff)
  then have "extract_douyin_id url = Inl (HTTPException 400 invalid_url_detail)"
    unfolding extract_douyin_id_def search_patterns_Inl_iff by simp
  moreover have "is_substring ''https://v.douyin.com/ABC123/'' invalid_url_detail"
    by code_simp
  moreover have "is_substring ''https://www.douyin.com/video/1234567890123456789'' invalid_url_detail"
    by code_simp
  moreover have "is_substring ''https://vm.tiktok.com/ABC123/'' invalid_url_detail"
    by code_simp
  ultimately show ?thesis by simp
qed

text \<open>C5 on a link to another host.\<close>

theorem no_shape_is_invalid_input_witness:
  "\<not> contains_link (shapes ! 0) ''https://example.com/video/1'' \<and>
   \<not> contains_link (shapes ! 1) ''https://example.com/video/1'' \<and>
   \<not> contains_link (shapes ! 2) ''https://example.com/video/1'' \<and>
   extract_douyin_id ''https://example.com/video/1'' = Inl (HTTPException 400 invalid_url_detail)"
proof -
  let ?u = "''https://example.com/video/1''"
  have n0: "\<not> contains_link (shapes ! 0) ?u"
    by (simp only: contains_link_nth[OF shape_indices(1)] search_other(1) simp_thms)
  have n1: "\<not> contains_link (shapes ! 1) ?u"
    by (simp only: contains_link_nth[OF shape_indices(2)] search_other(2) simp_thms)
  have n2: "\<not> contains_link (shapes ! 2) ?u"
    by (simp only: contains_link_nth[OF shape_indices(3)] search_other(3) simp_thms)
  have "\<forall>i < length shapes. \<not> contains_link (shapes ! i) ?u"
  proof (intro allI impI)
    fix i assume "i < length shapes"
    from shape_index[OF this] n0 n1 n2 show "\<not> contains_link (shapes ! i) ?u" by blast
  qed
  from no_shape_is_invalid_input[OF this] have
    "extract_douyin_id ?u = Inl (HTTPException 400 invalid_url_detail)" by (rule conjunct1)
  with n0 n1 n2 show ?thesis by (intro conjI)
qed

text \<open>
  C9. A string that one of the patterns matches at its start stays a match wherever it
  is embedded: for any text before and after it, \<open>extract_douyin_id\<close> succeeds on the
  whole string and returns what \<^verbatim>\<open>re.search\<close> captures there for the earliest pattern
  of the list that matches anywhere in the whole string.
\<close>

theorem link_found_anywhere:
  assumes "i < length patterns" and "match_here (patterns ! i) link [] = Some tok"
  shows "\<exists>k tok'. k \<le> i \<and> re_search (patterns ! k) (pre @ link @ post) = Some tok' \<and>
           (\<forall>j < k. re_search (patterns ! j) (pre @ link @ post) = None) \<and>
           extract_douyin_id (pre @ link @ post) = Inr tok'"
proof -
  from assms(1) have p: "patterns ! i = shape_pattern (shapes ! i)"
    using pattern_nth[of i] by (simp only: length_shapes length_patterns)
  from assms(2) have "match_here (shape_pattern (shapes ! i)) link [] = Some tok"
    unfolding p .
  then obtain tok' where "match_here (shape_pattern (shapes ! i)) (link @ post) [] = Some tok'"
    using match_extends by blast
  then have m: "match_here (patterns ! i) (link @ post) [] = Some tok'"
    unfolding p .
  have "re_search (patterns ! i) (pre @ link @ post) \<noteq> None"
  proof
    assume "re_search (patterns ! i) (pre @ link @ post) = None"
    then have "\<forall>pre' suf. pre @ link @ post = pre' @ suf \<longrightarrow> match_here (patterns ! i) suf [] = None"
      by (simp only: re_search_None_iff)
    then have "match_here (patterns ! i) (link @ post) [] = None" by blast
    with m show False by simp
  qed
  from first_matching_pattern[OF assms(1) this] show ?thesis .
qed

text \<open>C9 on a link inside a share text.\<close>

theorem link_found_anywhere_witness:
  "match_here (patterns ! 0) ''https://v.douyin.com/ABC123/'' [] = Some ''ABC123'' \<and>
   extract_douyin_id (''Check this out: '' @ ''https://v.douyin.com/ABC123/'' @ '' #fun'') =
     Inr ''ABC123''"
proof -
  have "0 < length patterns" by (simp add: length_patterns)
  from link_found_anywhere[OF this match_sample1, of "''Check this out: ''" "'' #fun''"]
  obtain k tok' where k: "k \<le> 0"
    "re_search (patterns ! k) (''Check this out: '' @ ''https://v.douyin.com/ABC123/'' @ '' #fun'') = Some tok'"
    "extract_douyin_id (''Check this out: '' @ ''https://v.douyin.com/ABC123/'' @ '' #fun'') = Inr tok'"
    by blast
  from k(1) have "k = 0" by simp
  with k(2) have "tok' = ''ABC123''"
    by (simp only: search_embedded option.inject)
  with k(3) have
    "extract_douyin_id (''Check this out: '' @ ''https://v.douyin.com/ABC123/'' @ '' #fun'') =
       Inr ''ABC123''" by (simp only:)
  with match_sample1 show ?thesis by (intro conjI)
qed

end
